theory Spec2Isabelle
  imports Complex_Main
begin

section \<open>Tensors and errors\<close>

text \<open>
  The layer of \<^verbatim>\<open>hashedFC.py\<close> works on two-dimensional float tensors. A tensor is
  modelled with its column count (a tensor with no rows still has a shape) and its rows;
  a cell value is the real number that a float32 value denotes (no NaN, no infinity). Every
  raise of the source is a value \<open>Inl e\<close>.
\<close>

datatype error = IndexError | ZeroDivisionError | RuntimeError

record tensor2 =
  ncols :: nat
  rws :: "real list list"

definition nrows :: "tensor2 \<Rightarrow> nat" where
  "nrows t = length (rws t)"

definition wf_tensor :: "tensor2 \<Rightarrow> bool" where
  "wf_tensor t = list_all (\<lambda>r. length r = ncols t) (rws t)"

definition zeros :: "nat \<Rightarrow> nat \<Rightarrow> tensor2" where
  "zeros r c = \<lparr>ncols = c, rws = replicate r (replicate c 0)\<rparr>"

text \<open>Reading and writing one cell \<open>t[r, c]\<close> with non-negative indices: out of range raises.\<close>

definition get2 :: "tensor2 \<Rightarrow> nat \<Rightarrow> nat \<Rightarrow> error + real" where
  "get2 t r c = (if r < nrows t \<and> c < ncols t then Inr (rws t ! r ! c) else Inl IndexError)"

definition set2 :: "tensor2 \<Rightarrow> nat \<Rightarrow> nat \<Rightarrow> real \<Rightarrow> error + tensor2" where
  "set2 t r c v =
     (if r < nrows t \<and> c < ncols t
      then Inr (t\<lparr>rws := (rws t)[r := (rws t ! r)[c := v]]\<rparr>)
      else Inl IndexError)"

fun map_e :: "('a \<Rightarrow> error + 'b) \<Rightarrow> 'a list \<Rightarrow> error + 'b list" where
  "map_e f [] = Inr []"
| "map_e f (x # xs) =
     (case f x of Inl e \<Rightarrow> Inl e
      | Inr y \<Rightarrow> (case map_e f xs of Inl e \<Rightarrow> Inl e | Inr ys \<Rightarrow> Inr (y # ys)))"

text \<open>Advanced indexing \<open>t[rows, cols]\<close> with two index vectors of the same length.\<close>

definition gather :: "tensor2 \<Rightarrow> nat list \<Rightarrow> nat list \<Rightarrow> error + real list" where
  "gather t rs cs = map_e (\<lambda>(r, c). get2 t r c) (zip rs cs)"

text \<open>
  Float arithmetic rounds, and \<^verbatim>\<open>torch.sum\<close> fixes no order of summation. The operations
  on floats that the layer uses are therefore parameters of the model: the addition of
  \<^verbatim>\<open>+=\<close>, the elementwise product, the division, and the sum of a vector. What is
  proved for every such arithmetic, or for every one with the properties a theorem names,
  holds for the float32 operations; only their values on float32 numbers matter.
\<close>

record arith =
  fadd :: "real \<Rightarrow> real \<Rightarrow> real"
  fmul :: "real \<Rightarrow> real \<Rightarrow> real"
  fdiv :: "real \<Rightarrow> real \<Rightarrow> real"
  fsum :: "real list \<Rightarrow> real"

text \<open>
  The arithmetic without rounding. It agrees with float32 wherever the operands and every
  intermediate result are float32 numbers, as for small integers and their halves.
\<close>

definition exact_arith :: arith where
  "exact_arith = \<lparr>fadd = (+), fmul = (*), fdiv = (/), fsum = sum_list\<rparr>"

text \<open>
  An arithmetic whose additions and sums stop growing at \<open>cap\<close>, the way a float32
  counter stops at \<open>2 ^ 24\<close> when 1 is added to it.
\<close>

definition stuck_arith :: "real \<Rightarrow> arith" where
  "stuck_arith cap =
     \<lparr>fadd = (\<lambda>x y. if x + y \<le> cap then x + y else max x cap), fmul = (*), fdiv = (/),
      fsum = (\<lambda>xs. min (sum_list xs) (max cap 0))\<rparr>"

text \<open>
  An index of Python or torch into a dimension of size \<open>n\<close>: a negative index counts from
  the end, anything outside \<open>-n \<le> k < n\<close> raises.
\<close>

definition py_index :: "nat \<Rightarrow> int \<Rightarrow> error + nat" where
  "py_index n k =
     (if - int n \<le> k \<and> k < int n
      then Inr (nat (if k < 0 then k + int n else k))
      else Inl IndexError)"

text \<open>
  \<open>torch.argmax\<close> of a vector: the index of the first maximal value. The layer calls it
  on vectors of two or more entries only.
\<close>

fun argmax_aux :: "real list \<Rightarrow> nat \<Rightarrow> nat \<Rightarrow> real \<Rightarrow> nat" where
  "argmax_aux [] i best bv = best"
| "argmax_aux (x # xs) i best bv =
     (if bv < x then argmax_aux xs (Suc i) i x else argmax_aux xs (Suc i) best bv)"

definition argmax :: "real list \<Rightarrow> nat" where
  "argmax xs = (case xs of [] \<Rightarrow> 0 | x # r \<Rightarrow> argmax_aux r 1 0 x)"

section \<open>The layer\<close>

text \<open>
  The fields of \<^verbatim>\<open>HashedFC\<close>. \<open>weight\<close> and \<open>bias\<close> are \<^verbatim>\<open>self.params.weight\<close> and
  \<^verbatim>\<open>self.params.bias\<close>; \<open>lsh_set\<close> says whether \<^verbatim>\<open>self.lsh\<close> is no longer \<^verbatim>\<open>None\<close>.
\<close>

record hashedFC =
  weight :: tensor2
  bias :: "real list"
  K :: nat
  D :: nat
  L :: nat
  num_class :: nat
  rehash :: bool
  running_activations :: tensor2
  lsh_set :: bool

text \<open>
  \<^verbatim>\<open>init_weights\<close> overwrites every weight with a uniform sample of the range
  \<open>[-0.05, 0.05]\<close> and every bias with 0. The samples are a parameter \<open>u\<close>: \<open>u i j\<close> is
  the value drawn for cell \<open>(i, j)\<close>.
\<close>

definition init_weights ::
  "(nat \<Rightarrow> nat \<Rightarrow> real) \<Rightarrow> tensor2 \<Rightarrow> real list \<Rightarrow> tensor2 \<times> real list" where
  "init_weights u w b =
     (w\<lparr>rws := map (\<lambda>i. map (u i) [0..<ncols w]) [0..<nrows w]\<rparr>, replicate (length b) 0)"

text \<open>
  \<^verbatim>\<open>__init__\<close>: \<^verbatim>\<open>nn.Linear(input_dim, output_dim)\<close> has a weight of shape
  \<open>(output_dim, input_dim)\<close>, overwritten at once by \<^verbatim>\<open>init_weights\<close>; the counters are
  \<^verbatim>\<open>torch.zeros(input_dim, output_dim)\<close>.
\<close>

definition HashedFC_init :: "(nat \<Rightarrow> nat \<Rightarrow> real) \<Rightarrow> nat \<Rightarrow> nat \<Rightarrow> nat \<Rightarrow> hashedFC" where
  "HashedFC_init u input_dim output_dim k =
     (let (w, b) = init_weights u (zeros output_dim input_dim) (replicate output_dim 0)
      in \<lparr>weight = w, bias = b, K = k, D = input_dim, L = 1, num_class = output_dim,
          rehash = False, running_activations = zeros input_dim output_dim,
          lsh_set = False\<rparr>)"

subsection \<open>accumulate_metrics\<close>

text \<open>
  \<^verbatim>\<open>activations\<close> is a batch: one row per sample. \<open>activation_mask\<close> holds 1 where
  an entry is positive and 0 elsewhere, and \<open>activation_summed\<close> is its float sum down each
  column. The in-place \<^verbatim>\<open>+=\<close> of the \<open>(1, w)\<close> vector broadcasts over the rows of the
  counters; it also broadcasts over the columns when \<open>w = 1\<close>, and raises for any other
  width that is not the counters' own.
\<close>

definition activation_mask :: "tensor2 \<Rightarrow> nat \<Rightarrow> real list" where
  "activation_mask activations j = map (\<lambda>r. if r ! j > 0 then 1 else 0) (rws activations)"

definition activation_summed :: "arith \<Rightarrow> tensor2 \<Rightarrow> real list" where
  "activation_summed A activations =
     map (\<lambda>j. fsum A (activation_mask activations j)) [0..<ncols activations]"

definition accumulate_metrics :: "arith \<Rightarrow> hashedFC \<Rightarrow> tensor2 \<Rightarrow> error + hashedFC" where
  "accumulate_metrics A s activations =
     (let summed = activation_summed A activations;
          ra = running_activations s
      in if ncols activations = ncols ra
         then Inr (s\<lparr>running_activations :=
                      ra\<lparr>rws := map (\<lambda>r. map2 (fadd A) r summed) (rws ra)\<rparr>\<rparr>)
         else if ncols activations = 1
         then Inr (s\<lparr>running_activations :=
                      ra\<lparr>rws := map (\<lambda>r. map (\<lambda>x. fadd A x (summed ! 0)) r) (rws ra)\<rparr>\<rparr>)
         else Inl RuntimeError)"

fun accumulate_all :: "arith \<Rightarrow> hashedFC \<Rightarrow> tensor2 list \<Rightarrow> error + hashedFC" where
  "accumulate_all A s [] = Inr s"
| "accumulate_all A s (a # as) =
     (case accumulate_metrics A s a of Inl e \<Rightarrow> Inl e | Inr s' \<Rightarrow> accumulate_all A s' as)"

subsection \<open>select_representatives\<close>

text \<open>
  The buckets come from \<^verbatim>\<open>self.lsh.representatives()\<close>, whose class is not part of the
  file: they are the parameter \<open>bucket_indices\<close>, each bucket the list of its members in
  iteration order (\<^verbatim>\<open>list(bucket)\<close>), a member being a non-negative item index.

  One turn of the loop takes \<open>new_weights\<close> and gives the updated \<open>new_weights\<close> and
  the entry written to \<open>representative_indices[i]\<close>. The fields read
  (\<^verbatim>\<open>self.params.weight\<close>, \<^verbatim>\<open>self.running_activations\<close>, \<^verbatim>\<open>self.num_class\<close>,
  \<^verbatim>\<open>self.D\<close>) do not change during the loop. A division or remainder by 0 raises:
  ZeroDivisionError on the Python integers of a singleton bucket, RuntimeError on the index
  tensor of a larger one.
\<close>

definition representative_weight :: "arith \<Rightarrow> real list \<Rightarrow> real list \<Rightarrow> real" where
  "representative_weight A bucket_weights bucket_activations =
     (let weighted_sum = fsum A (map2 (fmul A) bucket_weights bucket_activations);
          activation_sum = fsum A bucket_activations
      in if activation_sum = 0 then 0 else fdiv A weighted_sum activation_sum)"

fun process_bucket :: "arith \<Rightarrow> hashedFC \<Rightarrow> tensor2 \<Rightarrow> nat list \<Rightarrow> error + (tensor2 \<times> int)" where
  "process_bucket A s new_weights [] = Inr (new_weights, - 1)"
| "process_bucket A s new_weights [single_idx] =
     (if num_class s = 0 \<or> D s = 0 then Inl ZeroDivisionError
      else let row = single_idx div num_class s; col = single_idx mod D s
           in case get2 (weight s) row col of
                Inl e \<Rightarrow> Inl e
              | Inr v \<Rightarrow>
                  (case set2 new_weights row col v of
                     Inl e \<Rightarrow> Inl e
                   | Inr nw \<Rightarrow> Inr (nw, int single_idx)))"
| "process_bucket A s new_weights bucket =
     (if num_class s = 0 \<or> D s = 0 then Inl RuntimeError
      else let rows = map (\<lambda>f. f div num_class s) bucket;
               cols = map (\<lambda>f. f mod D s) bucket
           in case gather (running_activations s) rows cols of
                Inl e \<Rightarrow> Inl e
              | Inr bucket_activations \<Rightarrow>
                  (case gather (weight s) rows cols of
                     Inl e \<Rightarrow> Inl e
                   | Inr bucket_weights \<Rightarrow>
                       (let argmax_idx = argmax bucket_activations;
                            most_activated_row = rows ! argmax_idx;
                            most_activated_col = cols ! argmax_idx
                        in case set2 new_weights most_activated_row most_activated_col
                                  (representative_weight A bucket_weights bucket_activations) of
                             Inl e \<Rightarrow> Inl e
                           | Inr nw \<Rightarrow>
                               Inr (nw, int (most_activated_row * num_class s
                                               + most_activated_col)))))"

fun select_loop :: "arith \<Rightarrow> hashedFC \<Rightarrow> tensor2 \<Rightarrow> nat list list \<Rightarrow> error + (tensor2 \<times> int list)" where
  "select_loop A s new_weights [] = Inr (new_weights, [])"
| "select_loop A s new_weights (bucket # rest) =
     (case process_bucket A s new_weights bucket of
        Inl e \<Rightarrow> Inl e
      | Inr (nw, r) \<Rightarrow>
          (case select_loop A s nw rest of
             Inl e \<Rightarrow> Inl e
           | Inr (nw', rs) \<Rightarrow> Inr (nw', r # rs)))"

definition select_representatives ::
  "arith \<Rightarrow> hashedFC \<Rightarrow> nat list list \<Rightarrow> error + (hashedFC \<times> int list)" where
  "select_representatives A s bucket_indices =
     (case select_loop A s (weight s) bucket_indices of
        Inl e \<Rightarrow> Inl e
      | Inr (new_weights, representative_indices) \<Rightarrow>
          Inr (s\<lparr>weight := new_weights, lsh_set := True\<rparr>, representative_indices))"

subsection \<open>prune_weights\<close>

text \<open>
  \<^verbatim>\<open>self.params.weight[keep_indices, :input_dim]\<close> and \<^verbatim>\<open>self.params.bias[keep_indices]\<close>:
  one output row per entry of \<open>keep_indices\<close>, in order, each entry a torch index.
\<close>

definition pruned_weights :: "tensor2 \<Rightarrow> int list \<Rightarrow> nat \<Rightarrow> error + tensor2" where
  "pruned_weights w keep_indices input_dim =
     (case map_e (py_index (nrows w)) keep_indices of
        Inl e \<Rightarrow> Inl e
      | Inr is \<Rightarrow>
          Inr \<lparr>ncols = min input_dim (ncols w),
               rws = map (\<lambda>i. take input_dim (rws w ! i)) is\<rparr>)"

definition pruned_biases :: "real list \<Rightarrow> int list \<Rightarrow> error + real list" where
  "pruned_biases b keep_indices =
     (case map_e (py_index (length b)) keep_indices of
        Inl e \<Rightarrow> Inl e
      | Inr is \<Rightarrow> Inr (map (\<lambda>i. b ! i) is))"

text \<open>
  \<^verbatim>\<open>new_layer.weight.data.copy_(src)\<close> into a tensor of \<open>c\<close> columns and as many rows as
  \<open>src\<close>: the source is broadcast, so a source of one column fills every column, and any
  other width than \<open>c\<close> raises.
\<close>

definition copy_weight :: "nat \<Rightarrow> tensor2 \<Rightarrow> error + tensor2" where
  "copy_weight c src =
     (if ncols src = c then Inr src
      else if ncols src = 1 then Inr \<lparr>ncols = c, rws = map (\<lambda>r. replicate c (r ! 0)) (rws src)\<rparr>
      else Inl RuntimeError)"

text \<open>
  \<^verbatim>\<open>prune_weights\<close>: slice, build the new layer of shape \<open>(len(representatives),
  input_dim)\<close>, copy the slices into it, call \<^verbatim>\<open>init_weights\<close> on it, and install it.
  \<^verbatim>\<open>self.running_activations\<close> is not assigned.
\<close>

definition prune_weights ::
  "(nat \<Rightarrow> nat \<Rightarrow> real) \<Rightarrow> hashedFC \<Rightarrow> int list \<Rightarrow> nat \<Rightarrow> error + hashedFC" where
  "prune_weights u s representatives input_dim =
     (case pruned_weights (weight s) representatives input_dim of
        Inl e \<Rightarrow> Inl e
      | Inr pw \<Rightarrow>
          (case pruned_biases (bias s) representatives of
             Inl e \<Rightarrow> Inl e
           | Inr pb \<Rightarrow>
               (case copy_weight input_dim pw of
                  Inl e \<Rightarrow> Inl e
                | Inr cw \<Rightarrow>
                    (let (w', b') = init_weights u cw pb
                     in Inr (s\<lparr>weight := w', bias := b',
                               num_class := length representatives, D := input_dim\<rparr>)))))"

definition update_weights ::
  "arith \<Rightarrow> (nat \<Rightarrow> nat \<Rightarrow> real) \<Rightarrow> hashedFC \<Rightarrow> nat list list \<Rightarrow> nat \<Rightarrow> error + hashedFC" where
  "update_weights A u s bucket_indices input_dim =
     (case select_representatives A s bucket_indices of
        Inl e \<Rightarrow> Inl e
      | Inr (s', representatives) \<Rightarrow> prune_weights u s' representatives input_dim)"

subsection \<open>Cells written by the selection, and a small layer\<close>

text \<open>
  The cell of \<open>new_weights\<close> that a bucket of two or more members overwrites: the row and
  column computed for the member at \<open>argmax_idx\<close>.
\<close>

definition representative_cell :: "hashedFC \<Rightarrow> nat list \<Rightarrow> nat \<Rightarrow> nat \<Rightarrow> bool" where
  "representative_cell s bucket r c =
     (case gather (running_activations s) (map (\<lambda>f. f div num_class s) bucket)
             (map (\<lambda>f. f mod D s) bucket) of
        Inl e \<Rightarrow> False
      | Inr a \<Rightarrow> r = bucket ! argmax a div num_class s \<and> c = bucket ! argmax a mod D s)"

text \<open>One possible draw of \<^verbatim>\<open>init_weights\<close>: every sample is 0.\<close>

definition zero_samples :: "nat \<Rightarrow> nat \<Rightarrow> real" where
  "zero_samples i j = 0"

text \<open>
  The cell that the turn of a bucket writes, if any: none for an empty bucket, the member's
  own cell for a singleton, the representative cell otherwise.
\<close>

definition written_cell :: "hashedFC \<Rightarrow> nat list \<Rightarrow> nat \<Rightarrow> nat \<Rightarrow> bool" where
  "written_cell s bucket r c =
     (if length bucket = 0 then False
      else if length bucket = 1
      then r = hd bucket div num_class s \<and> c = hd bucket mod D s
      else representative_cell s bucket r c)"

text \<open>
  A layer of two inputs and two outputs whose counters have seen 2 and 6 positive
  activations, used to run the operations on concrete data.
\<close>

definition example_layer :: hashedFC where
  "example_layer =
     \<lparr>weight = \<lparr>ncols = 2, rws = [[1, 3], [7, 4]]\<rparr>, bias = [5, 6], K = 1, D = 2, L = 1,
      num_class = 2, rehash = False,
      running_activations = \<lparr>ncols = 2, rws = [[2, 6], [2, 6]]\<rparr>, lsh_set = False\<rparr>"

text \<open>The same shape with weights 5 and - 2 and counters that have seen nothing.\<close>

definition cold_layer :: hashedFC where
  "cold_layer =
     \<lparr>weight = \<lparr>ncols = 2, rws = [[5, - 2], [0, 0]]\<rparr>, bias = [0, 0], K = 1, D = 2, L = 1,
      num_class = 2, rehash = False,
      running_activations = \<lparr>ncols = 2, rws = [[0, 0], [0, 0]]\<rparr>, lsh_set = False\<rparr>"

text \<open>
  A layer of three inputs and four outputs, the shapes that \<^verbatim>\<open>HashedFC(3, 4, K)\<close> builds,
  with trained weights, after one batch whose sample activates the first and the last
  output unit.
\<close>

definition wide_layer :: hashedFC where
  "wide_layer =
     \<lparr>weight = \<lparr>ncols = 3, rws = [[1, 2, 3], [4, 5, 6], [7, 8, 9], [10, 11, 12]]\<rparr>,
      bias = [0, 0, 0, 0], K = 2, D = 3, L = 1, num_class = 4, rehash = False,
      running_activations = \<lparr>ncols = 4, rws = [[1, 0, 0, 1], [1, 0, 0, 1], [1, 0, 0, 1]]\<rparr>,
      lsh_set = False\<rparr>"

subsection \<open>Invariants of the counters\<close>

text \<open>
  The state of \<^verbatim>\<open>running_activations\<close> that accumulate_metrics maintains: every row has the
  tensor's width, all rows are the same, and no entry is negative.
\<close>

definition rows_equal :: "tensor2 \<Rightarrow> bool" where
  "rows_equal t = list_all (\<lambda>r. list_all (\<lambda>r'. r' = r) (rws t)) (rws t)"

definition nonneg :: "tensor2 \<Rightarrow> bool" where
  "nonneg t = list_all (list_all (\<lambda>x. 0 \<le> x)) (rws t)"

definition counter_inv :: "tensor2 \<Rightarrow> bool" where
  "counter_inv t = (wf_tensor t \<and> rows_equal t \<and> nonneg t)"

text \<open>A batch of two samples over three output units.\<close>

definition example_batch :: tensor2 where
  "example_batch = \<lparr>ncols = 3, rws = [[1, - 1, 0], [2, 3, 0]]\<rparr>"

text \<open>A batch of one sample over two output units, as a layer pruned to two units produces.\<close>

definition narrow_batch :: tensor2 where
  "narrow_batch = \<lparr>ncols = 2, rws = [[1, 1]]\<rparr>"

section \<open>Properties\<close>

subsection \<open>Auxiliary facts\<close>

lemmas eval_simps =
  select_representatives_def gather_def get2_def set2_def nrows_def argmax_def
  Let_def wf_tensor_def representative_cell_def written_cell_def

lemmas exact_simps = representative_weight_def exact_arith_def

lemmas prune_simps =
  prune_weights_def pruned_weights_def pruned_biases_def copy_weight_def init_weights_def
  py_index_def nrows_def

lemma select_loop_length:
  "select_loop A s nw bs = Inr (nw', rs) \<Longrightarrow> length rs = length bs"
  by (induction bs arbitrary: nw nw' rs) (auto split: sum.splits prod.splits)

lemma map_e_length: "map_e f xs = Inr ys \<Longrightarrow> length ys = length xs"
  by (induction xs arbitrary: ys) (auto split: sum.splits)

lemma map_e_nth: "map_e f xs = Inr ys \<Longrightarrow> i < length xs \<Longrightarrow> f (xs ! i) = Inr (ys ! i)"
proof (induction xs arbitrary: ys i)
  case Nil
  then show ?case by simp
next
  case (Cons x xs)
  then show ?case by (cases i) (auto split: sum.splits)
qed

lemma map_e_total: "(\<And>x. x \<in> set xs \<Longrightarrow> \<exists>y. f x = Inr y) \<Longrightarrow> \<exists>ys. map_e f xs = Inr ys"
proof (induction xs)
  case Nil
  then show ?case by simp
next
  case (Cons x xs)
  then obtain y ys where "f x = Inr y" "map_e f xs = Inr ys" by (metis list.set_intros)
  then show ?case by simp
qed

lemma gather_length:
  "gather t rs cs = Inr xs \<Longrightarrow> length rs = length cs \<Longrightarrow> length xs = length rs"
  by (auto simp: gather_def dest: map_e_length)

lemma gather_nth:
  assumes "gather t rs cs = Inr xs" "length rs = length cs" "i < length rs"
  shows "get2 t (rs ! i) (cs ! i) = Inr (xs ! i)"
  using map_e_nth [of "\<lambda>(r, c). get2 t r c" "zip rs cs" xs i] assms
  by (simp add: gather_def)

lemma argmax_aux_bound:
  "best < i \<Longrightarrow> argmax_aux xs i best bv < i + length xs"
  by (induction xs i best bv rule: argmax_aux.induct) auto

lemma argmax_less: "xs \<noteq> [] \<Longrightarrow> argmax xs < length xs"
  using argmax_aux_bound [of 0 1] by (auto simp: argmax_def split: list.splits)

lemma argmax_aux_first:
  assumes "length ps = i" "best < i" "ps ! best = bv"
    "\<forall>j<i. ps ! j \<le> bv" "\<forall>j<best. ps ! j < bv"
  shows "argmax_aux xs i best bv < length (ps @ xs) \<and>
         (\<forall>j<length (ps @ xs). (ps @ xs) ! j \<le> (ps @ xs) ! argmax_aux xs i best bv) \<and>
         (\<forall>j<argmax_aux xs i best bv. (ps @ xs) ! j < (ps @ xs) ! argmax_aux xs i best bv)"
  using assms
proof (induction xs arbitrary: ps i best bv)
  case Nil
  then show ?case by simp
next
  case (Cons x xs)
  show ?case
  proof (cases "bv < x")
    case True
    have "length (ps @ [x]) = Suc i" "i < Suc i" "(ps @ [x]) ! i = x"
      "\<forall>j<Suc i. (ps @ [x]) ! j \<le> x" "\<forall>j<i. (ps @ [x]) ! j < x"
      using Cons.prems True by (auto simp: nth_append less_Suc_eq intro: less_imp_le order.strict_trans1)
    from Cons.IH [OF this] True show ?thesis by simp
  next
    case False
    have "length (ps @ [x]) = Suc i" "best < Suc i" "(ps @ [x]) ! best = bv"
      "\<forall>j<Suc i. (ps @ [x]) ! j \<le> bv" "\<forall>j<best. (ps @ [x]) ! j < bv"
      using Cons.prems False by (auto simp: nth_append less_Suc_eq)
    from Cons.IH [OF this] False show ?thesis by simp
  qed
qed

lemma argmax_first:
  assumes "xs \<noteq> []"
  shows "argmax xs < length xs \<and> (\<forall>j<length xs. xs ! j \<le> xs ! argmax xs) \<and>
         (\<forall>j<argmax xs. xs ! j < xs ! argmax xs)"
proof -
  from assms obtain x r where xs: "xs = x # r" by (cases xs) auto
  have "length [x] = 1" "0 < (1::nat)" "[x] ! 0 = x" "\<forall>j<1. [x] ! j \<le> x" "\<forall>j<0. [x] ! j < x"
    by simp_all
  from argmax_aux_first [OF this, of r] show ?thesis
    by (simp add: xs argmax_def)
qed

lemma sum_list_map2_nth:
  "length ws = length as \<Longrightarrow>
     sum_list (map2 (*) ws as) = (\<Sum>i<length as. as ! i * ws ! i)" for ws :: "real list"
proof -
  assume len: "length ws = length as"
  have "sum_list (map2 (*) ws as) = (\<Sum>i<length as. ws ! i * as ! i)"
    using len by (simp add: sum_list_sum_nth atLeast0LessThan)
  also have "\<dots> = (\<Sum>i<length as. as ! i * ws ! i)"
    by (rule sum.cong) (simp_all add: mult.commute)
  finally show ?thesis .
qed

lemma get2_set2:
  "wf_tensor t \<Longrightarrow> set2 t r c v = Inr t' \<Longrightarrow> get2 t' r c = Inr v"
  by (auto simp: set2_def get2_def nrows_def wf_tensor_def list_all_iff split: if_splits)

lemma set2_frame:
  assumes "set2 t r c v = Inr t'"
  shows "nrows t' = nrows t" "ncols t' = ncols t"
    "rws t' ! r' ! c' = rws t ! r' ! c' \<or> (r' = r \<and> c' = c \<and> rws t' ! r' ! c' = v)"
proof -
  from assms have r: "r < length (rws t)" and t': "t' = t\<lparr>rws := (rws t)[r := (rws t ! r)[c := v]]\<rparr>"
    by (auto simp: set2_def nrows_def split: if_splits)
  show "nrows t' = nrows t" "ncols t' = ncols t" by (simp_all add: t' nrows_def)
  show "rws t' ! r' ! c' = rws t ! r' ! c' \<or> (r' = r \<and> c' = c \<and> rws t' ! r' ! c' = v)"
  proof (cases "r' = r")
    case False
    then show ?thesis by (simp add: t')
  next
    case True
    show ?thesis
    proof (cases "c < length (rws t ! r)")
      case True
      with \<open>r' = r\<close> r show ?thesis by (simp add: t' nth_list_update)
    next
      case False
      then have "(rws t ! r)[c := v] = rws t ! r" by (simp add: list_update_beyond)
      with \<open>r' = r\<close> r show ?thesis by (simp add: t')
    qed
  qed
qed

lemma process_bucket_frame:
  assumes "process_bucket A s nw b = Inr (nw1, rep)"
  shows "nrows nw1 = nrows nw \<and> ncols nw1 = ncols nw \<and>
         (rws nw1 ! r ! c = rws nw ! r ! c \<or>
          (length b = 1 \<and> rws nw1 ! r ! c = rws (weight s) ! r ! c) \<or>
          (2 \<le> length b \<and> representative_cell s b r c))"
proof (cases b)
  case Nil
  with assms show ?thesis by simp
next
  case (Cons f1 b')
  show ?thesis
  proof (cases b')
    case Nil
    with Cons assms obtain v where
      v: "get2 (weight s) (f1 div num_class s) (f1 mod D s) = Inr v"
      and st: "set2 nw (f1 div num_class s) (f1 mod D s) v = Inr nw1"
      by (auto simp: Let_def split: if_splits sum.splits)
    from v have "v = rws (weight s) ! (f1 div num_class s) ! (f1 mod D s)"
      by (auto simp: get2_def split: if_splits)
    with set2_frame(1,2) [OF st] set2_frame(3) [OF st, of r c] Cons Nil show ?thesis by auto
  next
    case (Cons f2 fs)
    let ?rows = "map (\<lambda>f. f div num_class s) b"
    let ?cols = "map (\<lambda>f. f mod D s) b"
    from assms \<open>b = f1 # b'\<close> Cons obtain a w where
      a: "gather (running_activations s) ?rows ?cols = Inr a"
      and st: "set2 nw (?rows ! argmax a) (?cols ! argmax a) (representative_weight A w a) = Inr nw1"
      by (auto simp: Let_def split: if_splits sum.splits)
    have la: "length a = length b" using gather_length [OF a] by simp
    then have "a \<noteq> []" using \<open>b = f1 # b'\<close> by auto
    then have m: "argmax a < length b" using argmax_less [of a] la by simp
    have len: "2 \<le> length b" using \<open>b = f1 # b'\<close> Cons by simp
    from set2_frame(1,2) [OF st] set2_frame(3) [OF st, of r c] m a len show ?thesis
      by (auto simp: representative_cell_def)
  qed
qed

lemma select_loop_frame:
  "select_loop A s nw bs = Inr (nw', rs) \<Longrightarrow>
     nrows nw' = nrows nw \<and> ncols nw' = ncols nw \<and>
     (rws nw' ! r ! c = rws nw ! r ! c \<or> rws nw' ! r ! c = rws (weight s) ! r ! c \<or>
      (\<exists>b \<in> set bs. 2 \<le> length b \<and> representative_cell s b r c))"
proof (induction bs arbitrary: nw nw' rs)
  case Nil
  then show ?case by simp
next
  case (Cons b bs)
  then obtain nw1 rep rs' where pb: "process_bucket A s nw b = Inr (nw1, rep)"
    and rest: "select_loop A s nw1 bs = Inr (nw', rs')"
    by (auto split: sum.splits prod.splits)
  from process_bucket_frame [OF pb, of r c] Cons.IH [OF rest] show ?case
    by auto
qed

lemma process_bucket_small_id:
  assumes "process_bucket A s (weight s) b = Inr (nw1, rep)" "length b \<le> 1"
  shows "nw1 = weight s"
proof (cases b)
  case Nil
  with assms show ?thesis by simp
next
  case (Cons f1 b')
  with assms have b: "b = [f1]" by simp
  with assms obtain v where
    v: "get2 (weight s) (f1 div num_class s) (f1 mod D s) = Inr v"
    and st: "set2 (weight s) (f1 div num_class s) (f1 mod D s) v = Inr nw1"
    by (auto simp: Let_def split: if_splits sum.splits)
  from v have "v = rws (weight s) ! (f1 div num_class s) ! (f1 mod D s)"
    by (auto simp: get2_def split: if_splits)
  with st show ?thesis
    by (auto simp: set2_def split: if_splits)
qed

lemma select_loop_small_id:
  "select_loop A s (weight s) bs = Inr (nw', rs) \<Longrightarrow> list_all (\<lambda>b. length b \<le> 1) bs \<Longrightarrow>
     nw' = weight s"
proof (induction bs arbitrary: nw' rs)
  case Nil
  then show ?case by simp
next
  case (Cons b bs)
  then obtain nw1 rep rs' where pb: "process_bucket A s (weight s) b = Inr (nw1, rep)"
    and rest: "select_loop A s nw1 bs = Inr (nw', rs')"
    by (auto split: sum.splits prod.splits)
  from process_bucket_small_id [OF pb] Cons.prems have "nw1 = weight s" by simp
  with rest Cons show ?case by simp
qed

lemma select_loop_nth:
  "select_loop A s nw bs = Inr (nw', rs) \<Longrightarrow> i < length bs \<Longrightarrow>
     \<exists>a a'. process_bucket A s a (bs ! i) = Inr (a', rs ! i)"
proof (induction bs arbitrary: nw nw' rs i)
  case Nil
  then show ?case by simp
next
  case (Cons b bs)
  show ?case
  proof (cases i)
    case 0
    with Cons.prems show ?thesis
      by (fastforce split: sum.splits prod.splits)
  next
    case (Suc j)
    with Cons.prems obtain a r rs' where "select_loop A s a bs = Inr (nw', rs')" "rs = r # rs'"
      by (auto split: sum.splits prod.splits)
    with Cons.IH [of a nw' rs' j] Suc Cons.prems show ?thesis by simp
  qed
qed

lemma process_bucket_empty_rep:
  "process_bucket A s a [] = Inr (a', r) \<Longrightarrow> r = - 1"
  by simp

lemma process_bucket_single_rep:
  "process_bucket A s a [f] = Inr (a', r) \<Longrightarrow> r = int f"
  by (auto simp: Let_def split: if_splits sum.splits)

lemma activation_summed_length: "length (activation_summed A a) = ncols a"
  by (simp add: activation_summed_def)

lemma activation_summed_nth:
  "j < ncols a \<Longrightarrow> activation_summed A a ! j = fsum A (activation_mask a j)"
  by (simp add: activation_summed_def)

lemma activation_mask_nonneg: "list_all (\<lambda>x. 0 \<le> x) (activation_mask a j)"
  by (auto simp: activation_mask_def list_all_iff)

lemma activation_mask_count:
  "fsum exact_arith (activation_mask a j) = real (length (filter (\<lambda>r. 0 < r ! j) (rws a)))"
proof -
  have "sum_list (map (\<lambda>r. if 0 < r ! j then 1 else 0) xs) =
          real (length (filter (\<lambda>r. 0 < r ! j) xs))" for xs :: "real list list"
    by (induction xs) simp_all
  then show ?thesis by (simp add: exact_arith_def activation_mask_def)
qed

lemma activation_summed_nonneg:
  assumes "\<And>xs. list_all (\<lambda>x. 0 \<le> x) xs \<Longrightarrow> 0 \<le> fsum A xs"
    and "x \<in> set (activation_summed A a)"
  shows "0 \<le> x"
  using assms(2) assms(1) [OF activation_mask_nonneg]
  by (auto simp: activation_summed_def)

lemma counter_inv_zeros: "counter_inv (zeros r c)"
  by (auto simp: counter_inv_def wf_tensor_def rows_equal_def nonneg_def zeros_def list_all_iff)

lemma accumulate_shape:
  "accumulate_metrics A s a = Inr s' \<Longrightarrow>
     nrows (running_activations s') = nrows (running_activations s) \<and>
     ncols (running_activations s') = ncols (running_activations s)"
  by (auto simp: accumulate_metrics_def Let_def nrows_def split: if_splits)

lemma accumulate_inv:
  assumes mono: "\<And>x y. 0 \<le> y \<Longrightarrow> x \<le> fadd A x y"
    and sum_nn: "\<And>xs. list_all (\<lambda>x. 0 \<le> x) xs \<Longrightarrow> 0 \<le> fsum A xs"
    and acc: "accumulate_metrics A s a = Inr s'"
    and inv: "counter_inv (running_activations s)"
  shows "counter_inv (running_activations s')"
proof -
  let ?ra = "running_activations s"
  let ?sm = "activation_summed A a"
  have grow: "0 \<le> fadd A x y" if "0 \<le> x" "0 \<le> y" for x y
    using mono [OF that(2), of x] that(1) by simp
  have old: "0 \<le> x" if "x \<in> set r" "r \<in> set (rws ?ra)" for x r
    using that inv by (auto simp: counter_inv_def nonneg_def list_all_iff)
  show ?thesis
  proof (cases "ncols a = ncols ?ra")
    case True
    with acc have s': "running_activations s' =
        ?ra\<lparr>rws := map (\<lambda>r. map2 (fadd A) r ?sm) (rws ?ra)\<rparr>"
      by (auto simp: accumulate_metrics_def Let_def)
    have "0 \<le> fadd A x y" if "x \<in> set r" "r \<in> set (rws ?ra)" "y \<in> set ?sm" for x y r
      using grow [OF old [OF that(1,2)] activation_summed_nonneg [OF sum_nn that(3)]] .
    then have nn: "nonneg (running_activations s')"
      unfolding s' nonneg_def list_all_iff
      using set_zip_leftD set_zip_rightD by fastforce
    show ?thesis
      using inv True nn
      by (auto simp: s' counter_inv_def wf_tensor_def rows_equal_def list_all_iff
          activation_summed_length)
  next
    case False
    with acc have one: "ncols a = 1" and
      s': "running_activations s' =
        ?ra\<lparr>rws := map (\<lambda>r. map (\<lambda>x. fadd A x (?sm ! 0)) r) (rws ?ra)\<rparr>"
      by (auto simp: accumulate_metrics_def Let_def split: if_splits)
    have "?sm ! 0 \<in> set ?sm" using one by (simp add: activation_summed_length)
    then have "0 \<le> ?sm ! 0"
      using activation_summed_nonneg [of A "?sm ! 0" a] sum_nn by blast
    then have "0 \<le> fadd A x (?sm ! 0)" if "x \<in> set r" "r \<in> set (rws ?ra)" for x r
      using grow old that by blast
    then have nn: "nonneg (running_activations s')"
      unfolding s' nonneg_def list_all_iff by auto
    show ?thesis
      using inv nn
      by (auto simp: s' counter_inv_def wf_tensor_def rows_equal_def list_all_iff)
  qed
qed

lemma accumulate_cell:
  assumes "accumulate_metrics A s a = Inr s'" "wf_tensor (running_activations s)"
    "i < nrows (running_activations s)" "j < ncols (running_activations s)"
  shows "rws (running_activations s') ! i ! j =
           fadd A (rws (running_activations s) ! i ! j)
             (activation_summed A a ! (if ncols a = ncols (running_activations s) then j else 0))"
proof -
  let ?ra = "running_activations s"
  from assms(2,3) have len: "length (rws ?ra ! i) = ncols ?ra"
    by (simp add: wf_tensor_def list_all_iff nrows_def)
  show ?thesis
  proof (cases "ncols a = ncols ?ra")
    case True
    with assms(1) have "running_activations s' =
        ?ra\<lparr>rws := map (\<lambda>r. map2 (fadd A) r (activation_summed A a)) (rws ?ra)\<rparr>"
      by (auto simp: accumulate_metrics_def Let_def)
    with assms(3,4) len True show ?thesis
      by (simp add: nrows_def activation_summed_length)
  next
    case False
    with assms(1) have "running_activations s' =
        ?ra\<lparr>rws := map (\<lambda>r. map (\<lambda>x. fadd A x (activation_summed A a ! 0)) r) (rws ?ra)\<rparr>"
      by (auto simp: accumulate_metrics_def Let_def split: if_splits)
    with assms(3,4) len False show ?thesis
      by (simp add: nrows_def)
  qed
qed

lemma accumulate_all_inv:
  assumes mono: "\<And>x y. 0 \<le> y \<Longrightarrow> x \<le> fadd A x y"
    and sum_nn: "\<And>xs. list_all (\<lambda>x. 0 \<le> x) xs \<Longrightarrow> 0 \<le> fsum A xs"
  shows "accumulate_all A s batches = Inr s' \<Longrightarrow> counter_inv (running_activations s) \<Longrightarrow>
     counter_inv (running_activations s') \<and>
     nrows (running_activations s') = nrows (running_activations s) \<and>
     ncols (running_activations s') = ncols (running_activations s)"
proof (induction batches arbitrary: s)
  case Nil
  then show ?case by simp
next
  case (Cons a batches)
  then obtain s1 where st: "accumulate_metrics A s a = Inr s1"
    and rest: "accumulate_all A s1 batches = Inr s'"
    by (auto split: sum.splits)
  from accumulate_inv [OF mono sum_nn st Cons.prems(2)] Cons.IH [OF rest] accumulate_shape [OF st]
  show ?case by simp
qed

lemma py_index_total: "- int n \<le> k \<Longrightarrow> k < int n \<Longrightarrow> \<exists>i. py_index n k = Inr i"
  by (simp add: py_index_def)

lemma py_index_sentinel: "0 < n \<Longrightarrow> py_index n (- 1) = Inr (n - 1)"
  by (auto simp: py_index_def)

lemma prune_weights_shape:
  assumes "prune_weights u s representatives input_dim = Inr s'"
  shows "nrows (weight s') = length representatives" "ncols (weight s') = input_dim"
    "length (bias s') = length representatives" "num_class s' = length representatives"
    "D s' = input_dim" "running_activations s' = running_activations s"
    "bias s' = replicate (length representatives) 0"
proof -
  from assms obtain pw pb cw where
    pw: "pruned_weights (weight s) representatives input_dim = Inr pw"
    and pb: "pruned_biases (bias s) representatives = Inr pb"
    and cw: "copy_weight input_dim pw = Inr cw"
    and s': "s' = s\<lparr>weight := fst (init_weights u cw pb), bias := snd (init_weights u cw pb),
                       num_class := length representatives, D := input_dim\<rparr>"
    by (auto simp: prune_weights_def split: sum.splits prod.splits)
  from pw have npw: "nrows pw = length representatives"
    by (auto simp: pruned_weights_def nrows_def split: sum.splits dest: map_e_length)
  from pb have npb: "length pb = length representatives"
    by (auto simp: pruned_biases_def split: sum.splits dest: map_e_length)
  from cw npw have ncw: "nrows cw = length representatives" "ncols cw = input_dim"
    by (auto simp: copy_weight_def nrows_def split: if_splits)
  show "nrows (weight s') = length representatives" "ncols (weight s') = input_dim"
    "length (bias s') = length representatives" "num_class s' = length representatives"
    "D s' = input_dim" "running_activations s' = running_activations s"
    "bias s' = replicate (length representatives) 0"
    using ncw npb by (simp_all add: s' init_weights_def nrows_def)
qed

lemma set2_wf:
  assumes "wf_tensor t" "set2 t r c v = Inr t'"
  shows "wf_tensor t'"
proof -
  from assms(2) have r: "r < length (rws t)"
    and t': "rws t' = (rws t)[r := (rws t ! r)[c := v]]" and nc: "ncols t' = ncols t"
    by (auto simp: set2_def nrows_def split: if_splits)
  have "length x = ncols t" if "x \<in> set (rws t')" for x
  proof -
    from that have "x = (rws t ! r)[c := v] \<or> x \<in> set (rws t)"
      unfolding t' using set_update_subset_insert [of "rws t" r "(rws t ! r)[c := v]"] by auto
    with assms(1) r show ?thesis
      by (auto simp: wf_tensor_def list_all_iff)
  qed
  then show ?thesis by (simp add: wf_tensor_def list_all_iff nc)
qed

lemma process_bucket_cases:
  assumes "process_bucket A s nw b = Inr (nw1, rep)"
  shows "nw1 = nw \<or> (\<exists>r c v. set2 nw r c v = Inr nw1 \<and> written_cell s b r c)"
proof (cases b)
  case Nil
  with assms show ?thesis by simp
next
  case (Cons f1 b')
  show ?thesis
  proof (cases b')
    case Nil
    with Cons assms obtain v where
      "set2 nw (f1 div num_class s) (f1 mod D s) v = Inr nw1"
      by (auto simp: Let_def split: if_splits sum.splits)
    with Cons Nil show ?thesis by (auto simp: written_cell_def)
  next
    case (Cons f2 fs)
    let ?rows = "map (\<lambda>f. f div num_class s) b"
    let ?cols = "map (\<lambda>f. f mod D s) b"
    from assms \<open>b = f1 # b'\<close> Cons obtain a w where
      a: "gather (running_activations s) ?rows ?cols = Inr a"
      and st: "set2 nw (?rows ! argmax a) (?cols ! argmax a) (representative_weight A w a) = Inr nw1"
      by (auto simp: Let_def split: if_splits sum.splits)
    have la: "length a = length b" using gather_length [OF a] by simp
    then have "a \<noteq> []" using \<open>b = f1 # b'\<close> by auto
    then have m: "argmax a < length b" using argmax_less [of a] la by simp
    have len: "length b \<noteq> 0" "length b \<noteq> 1" using \<open>b = f1 # b'\<close> Cons by simp_all
    have "written_cell s b (?rows ! argmax a) (?cols ! argmax a)"
      using m a len by (simp add: written_cell_def representative_cell_def)
    with st show ?thesis by blast
  qed
qed

lemma process_bucket_wf:
  "wf_tensor nw \<Longrightarrow> process_bucket A s nw b = Inr (nw1, rep) \<Longrightarrow> wf_tensor nw1"
  using process_bucket_cases set2_wf by blast

lemma process_bucket_untouched:
  assumes "process_bucket A s nw b = Inr (nw1, rep)" "\<not> written_cell s b r c"
  shows "rws nw1 ! r ! c = rws nw ! r ! c"
  using process_bucket_cases [OF assms(1)] assms(2) set2_frame(3) [of nw _ _ _ nw1 r c]
  by auto

lemma select_loop_wf:
  "select_loop A s nw bs = Inr (nw', rs) \<Longrightarrow> wf_tensor nw \<Longrightarrow> wf_tensor nw'"
proof (induction bs arbitrary: nw nw' rs)
  case Nil
  then show ?case by simp
next
  case (Cons b bs)
  then obtain nw1 rep rs' where pb: "process_bucket A s nw b = Inr (nw1, rep)"
    and rest: "select_loop A s nw1 bs = Inr (nw', rs')"
    by (auto split: sum.splits prod.splits)
  from Cons.IH [OF rest process_bucket_wf [OF Cons.prems(2) pb]] show ?case .
qed

lemma select_loop_untouched:
  "select_loop A s nw bs = Inr (nw', rs) \<Longrightarrow> list_all (\<lambda>b. \<not> written_cell s b r c) bs \<Longrightarrow>
     rws nw' ! r ! c = rws nw ! r ! c"
proof (induction bs arbitrary: nw nw' rs)
  case Nil
  then show ?case by simp
next
  case (Cons b bs)
  then obtain nw1 rep rs' where pb: "process_bucket A s nw b = Inr (nw1, rep)"
    and rest: "select_loop A s nw1 bs = Inr (nw', rs')"
    by (auto split: sum.splits prod.splits)
  from Cons.prems(2) have "\<not> written_cell s b r c" "list_all (\<lambda>b. \<not> written_cell s b r c) bs"
    by simp_all
  with Cons.IH [OF rest] process_bucket_untouched [OF pb] show ?case by simp
qed

lemma select_loop_append:
  "select_loop A s nw (xs @ ys) = Inr (nw', rs) \<Longrightarrow>
     \<exists>nw1 rs1 rs2. select_loop A s nw xs = Inr (nw1, rs1) \<and>
        select_loop A s nw1 ys = Inr (nw', rs2) \<and> rs = rs1 @ rs2"
proof (induction xs arbitrary: nw rs)
  case Nil
  then show ?case by simp
next
  case (Cons b xs)
  then obtain nw0 rep rs' where pb: "process_bucket A s nw b = Inr (nw0, rep)"
    and rest: "select_loop A s nw0 (xs @ ys) = Inr (nw', rs')" and rs: "rs = rep # rs'"
    by (auto split: sum.splits prod.splits)
  from Cons.IH [OF rest] obtain nw1 rs1 rs2 where
    "select_loop A s nw0 xs = Inr (nw1, rs1)" "select_loop A s nw1 ys = Inr (nw', rs2)"
    "rs' = rs1 @ rs2" by blast
  with pb rs show ?case by simp
qed

lemma select_loop_shape:
  "select_loop A s nw bs = Inr (nw', rs) \<Longrightarrow> nrows nw' = nrows nw \<and> ncols nw' = ncols nw"
  using select_loop_frame [of A s nw bs nw' rs 0 0] by simp

lemma representative_weight_exact:
  assumes "length w = length a"
  shows "representative_weight exact_arith w a =
           (if (\<Sum>i<length a. a ! i) = 0 then 0
            else (\<Sum>i<length a. a ! i * w ! i) / (\<Sum>i<length a. a ! i))"
  using sum_list_map2_nth [OF assms]
  by (simp add: representative_weight_def exact_arith_def Let_def sum_list_sum_nth
      atLeast0LessThan)

lemma example_prune:
  "prune_weights zero_samples example_layer [1, - 1] 1 =
     Inr (example_layer\<lparr>weight := \<lparr>ncols = 1, rws = [[0], [0]]\<rparr>, bias := [0, 0],
                        num_class := 2, D := 1\<rparr>)"
  by (simp add: example_layer_def prune_simps zero_samples_def upt_rec numeral_2_eq_2)

lemmas accumulate_simps =
  HashedFC_init_def init_weights_def zeros_def example_batch_def accumulate_metrics_def
  activation_summed_def activation_mask_def Let_def nrows_def numeral_2_eq_2 numeral_3_eq_3
  upt_rec

lemma example_accumulate:
  "accumulate_all exact_arith (HashedFC_init zero_samples 2 3 1) [example_batch] =
     Inr ((HashedFC_init zero_samples 2 3 1)
            \<lparr>running_activations := \<lparr>ncols = 3, rws = [[2, 1, 0], [2, 1, 0]]\<rparr>\<rparr>)"
  by (simp add: accumulate_simps exact_arith_def)

lemma example_accumulate_stuck:
  "accumulate_all (stuck_arith 3) (HashedFC_init zero_samples 2 3 1) [example_batch, example_batch] =
     Inr ((HashedFC_init zero_samples 2 3 1)
            \<lparr>running_activations := \<lparr>ncols = 3, rws = [[3, 2, 0], [3, 2, 0]]\<rparr>\<rparr>)"
  by (simp add: accumulate_simps stuck_arith_def)

lemma example_select:
  "select_representatives exact_arith example_layer [[0, 1], [], [2]] =
     Inr (example_layer\<lparr>weight := \<lparr>ncols = 2, rws = [[1, 5 / 2], [7, 4]]\<rparr>, lsh_set := True\<rparr>,
          [1, - 1, 2])"
  by (simp add: example_layer_def eval_simps exact_simps)

lemma example_select_small:
  "select_representatives A example_layer [[], [2]] =
     Inr (example_layer\<lparr>weight := \<lparr>ncols = 2, rws = [[1, 3], [7, 4]]\<rparr>, lsh_set := True\<rparr>,
          [- 1, 2])"
  by (simp add: example_layer_def eval_simps)

lemma representative_round_trip:
  assumes pb: "process_bucket A s nw bucket = Inr (nw', r)" and multi: "2 \<le> length bucket"
    and sq: "num_class s = D s"
  shows "\<exists>a. gather (running_activations s) (map (\<lambda>f. f div num_class s) bucket)
                (map (\<lambda>f. f mod D s) bucket) = Inr a \<and>
             r = int (bucket ! argmax a) \<and>
             (\<forall>j < length a. a ! j \<le> a ! argmax a) \<and> (\<forall>j < argmax a. a ! j < a ! argmax a)"
proof -
  let ?rows = "map (\<lambda>f. f div num_class s) bucket"
  let ?cols = "map (\<lambda>f. f mod D s) bucket"
  from multi obtain f1 f2 fs where b: "bucket = f1 # f2 # fs"
    by (cases bucket; cases "tl bucket") auto
  from pb obtain a where a: "gather (running_activations s) ?rows ?cols = Inr a"
    and r: "r = int (?rows ! argmax a * num_class s + ?cols ! argmax a)"
    unfolding b by (auto simp: Let_def split: if_splits sum.splits)
  have la: "length a = length bucket" using gather_length [OF a] by simp
  then have ne: "a \<noteq> []" using multi by auto
  from argmax_first [OF ne] la have m: "argmax a < length bucket" by simp
  have "r = int (bucket ! argmax a)" using r m sq by simp
  with a argmax_first [OF ne] show ?thesis by blast
qed

subsection \<open>The representative weight\<close>

text \<open>
  C3. For a bucket of two or more members whose activation counts \<open>a\<close> and weights \<open>w\<close>
  were read in range, in whatever float arithmetic: the turn of the loop does not fail, and
  leaves in the cell of the most activated member the quotient of the sum of the products
  \<open>w\<^sub>i * a\<^sub>i\<close> by the sum of the \<open>a\<^sub>i\<close>, or 0 when the sum of the \<open>a\<^sub>i\<close> is 0; and that value
  is in the weights select_representatives returns, unless a later bucket writes the same
  cell.
\<close>

theorem C3_weighted_mean:
  assumes multi: "2 \<le> length bucket"
    and nz: "num_class s \<noteq> 0" "D s \<noteq> 0"
    and acts: "gather (running_activations s) (map (\<lambda>f. f div num_class s) bucket)
                 (map (\<lambda>f. f mod D s) bucket) = Inr a"
    and wts: "gather (weight s) (map (\<lambda>f. f div num_class s) bucket)
                 (map (\<lambda>f. f mod D s) bucket) = Inr w"
    and val: "v = (if fsum A a = 0 then 0
                   else fdiv A (fsum A (map2 (fmul A) w a)) (fsum A a))"
    and row: "r = bucket ! argmax a div num_class s"
    and col: "c = bucket ! argmax a mod D s"
  shows "(\<forall>new_weights.
            nrows new_weights = nrows (weight s) \<and> ncols new_weights = ncols (weight s) \<and>
            wf_tensor new_weights \<longrightarrow>
            (\<exists>nw rep. process_bucket A s new_weights bucket = Inr (nw, rep) \<and>
               get2 nw r c = Inr v)) \<and>
         (\<forall>before after s' reps.
            wf_tensor (weight s) \<and>
            select_representatives A s (before @ bucket # after) = Inr (s', reps) \<and>
            list_all (\<lambda>b. \<not> written_cell s b r c) after \<longrightarrow>
            get2 (weight s') r c = Inr v)"
proof -
  let ?rows = "map (\<lambda>f. f div num_class s) bucket"
  let ?cols = "map (\<lambda>f. f mod D s) bucket"
  let ?m = "argmax a"
  have la: "length a = length bucket" using gather_length [OF acts] by simp
  have "a \<noteq> []" using la multi by auto
  then have m: "?m < length bucket" using argmax_less [of a] la by simp
  have rc: "?rows ! ?m = r" "?cols ! ?m = c" using m row col by simp_all
  have v: "representative_weight A w a = v"
    by (simp add: representative_weight_def Let_def val)
  have inW: "r < nrows (weight s) \<and> c < ncols (weight s)"
    using gather_nth [OF wts, of ?m] m rc by (auto simp: get2_def split: if_splits)
  from multi obtain f1 f2 fs where b: "bucket = f1 # f2 # fs"
    by (cases bucket; cases "tl bucket") auto
  have turn: "\<exists>nw rep. process_bucket A s new_weights bucket = Inr (nw, rep) \<and>
                get2 nw r c = Inr v"
    if shape: "nrows new_weights = nrows (weight s)" "ncols new_weights = ncols (weight s)"
      and wf: "wf_tensor new_weights" for new_weights
  proof -
    from inW shape obtain nw where nw: "set2 new_weights r c v = Inr nw"
      by (auto simp: set2_def)
    have "process_bucket A s new_weights bucket = Inr (nw, int (r * num_class s + c))"
      using nz acts wts nw rc v unfolding b by (simp add: Let_def)
    with get2_set2 [OF wf nw] show ?thesis by blast
  qed
  have lifted: "get2 (weight s') r c = Inr v"
    if wfW: "wf_tensor (weight s)"
      and sel: "select_representatives A s (before @ bucket # after) = Inr (s', reps)"
      and later: "list_all (\<lambda>b. \<not> written_cell s b r c) after" for before after s' reps
  proof -
    from sel obtain nwF where
      loop: "select_loop A s (weight s) (before @ bucket # after) = Inr (nwF, reps)"
      and s': "weight s' = nwF"
      by (auto simp: select_representatives_def split: sum.splits prod.splits)
    from select_loop_append [OF loop] obtain nw0 rs0 rs1 where
      pre: "select_loop A s (weight s) before = Inr (nw0, rs0)"
      and rest: "select_loop A s nw0 (bucket # after) = Inr (nwF, rs1)" by blast
    from rest obtain nw1 rep rs2 where pb: "process_bucket A s nw0 bucket = Inr (nw1, rep)"
      and post: "select_loop A s nw1 after = Inr (nwF, rs2)"
      by (auto split: sum.splits prod.splits)
    from turn [of nw0] select_loop_shape [OF pre] select_loop_wf [OF pre wfW] pb
    have g1: "get2 nw1 r c = Inr v" by auto
    from select_loop_untouched [OF post later] select_loop_shape [OF post] g1
    show ?thesis by (auto simp: s' get2_def split: if_splits)
  qed
  from turn lifted show ?thesis by blast
qed

text \<open>
  The two buckets of the specification, in the arithmetic without rounding (every number
  below is a float32 number): counts 2 and 6 with weights 1 and 3 give 5 / 2, counts 0 and
  0 give the fallback 0.
\<close>

theorem C3_weighted_mean_witness:
  "(\<exists>nw rep. process_bucket exact_arith example_layer (weight example_layer) [0, 1] =
        Inr (nw, rep) \<and> get2 nw 0 1 = Inr (5 / 2)) \<and>
   get2 \<lparr>ncols = 2, rws = [[1, 5 / 2], [7, 4]]\<rparr> 0 1 = Inr (5 / 2) \<and>
   (\<exists>nw rep. process_bucket exact_arith cold_layer (weight cold_layer) [0, 1] =
        Inr (nw, rep) \<and> get2 nw 0 0 = Inr 0)"
proof -
  have h1: "2 \<le> length [0::nat, 1]" by simp
  have h2: "num_class example_layer \<noteq> 0" "D example_layer \<noteq> 0"
    by (simp_all add: example_layer_def)
  have h3: "gather (running_activations example_layer)
              (map (\<lambda>f. f div num_class example_layer) [0, 1])
              (map (\<lambda>f. f mod D example_layer) [0, 1]) = Inr [2, 6]"
    by (simp add: example_layer_def eval_simps)
  have h4: "gather (weight example_layer)
              (map (\<lambda>f. f div num_class example_layer) [0, 1])
              (map (\<lambda>f. f mod D example_layer) [0, 1]) = Inr [1, 3]"
    by (simp add: example_layer_def eval_simps)
  have h5: "5 / 2 = (if fsum exact_arith [2, 6] = 0 then 0
                   else fdiv exact_arith (fsum exact_arith (map2 (fmul exact_arith) [1, 3] [2, 6]))
                          (fsum exact_arith [2, 6]))"
    by (simp add: exact_arith_def)
  have h6: "0 = [0, 1] ! argmax [2, 6] div num_class example_layer"
    and h7: "1 = [0, 1] ! argmax [2, 6] mod D example_layer"
    by (simp_all add: example_layer_def argmax_def)
  have wf: "nrows (weight example_layer) = nrows (weight example_layer) \<and>
            ncols (weight example_layer) = ncols (weight example_layer) \<and>
            wf_tensor (weight example_layer)"
    by (simp add: example_layer_def eval_simps)
  have later: "list_all (\<lambda>b. \<not> written_cell example_layer b 0 1) [[], [2]]"
    by (simp add: example_layer_def written_cell_def)
  note warm = C3_weighted_mean [OF h1 h2 h3 h4 h5 h6 h7]
  from warm wf have w1: "\<exists>nw rep. process_bucket exact_arith example_layer
        (weight example_layer) [0, 1] = Inr (nw, rep) \<and> get2 nw 0 1 = Inr (5 / 2)"
    by blast
  have "select_representatives exact_arith example_layer ([] @ [0, 1] # [[], [2]]) =
     Inr (example_layer\<lparr>weight := \<lparr>ncols = 2, rws = [[1, 5 / 2], [7, 4]]\<rparr>, lsh_set := True\<rparr>,
          [1, - 1, 2])"
    using example_select by simp
  with warm wf later
  have "get2 (weight (example_layer\<lparr>weight := \<lparr>ncols = 2, rws = [[1, 5 / 2], [7, 4]]\<rparr>,
                                      lsh_set := True\<rparr>)) 0 1 = Inr (5 / 2)"
    by blast
  then have w2: "get2 \<lparr>ncols = 2, rws = [[1, 5 / 2], [7, 4]]\<rparr> 0 1 = Inr (5 / 2)" by simp
  have k2: "num_class cold_layer \<noteq> 0" "D cold_layer \<noteq> 0"
    by (simp_all add: cold_layer_def)
  have k3: "gather (running_activations cold_layer)
              (map (\<lambda>f. f div num_class cold_layer) [0, 1])
              (map (\<lambda>f. f mod D cold_layer) [0, 1]) = Inr [0, 0]"
    by (simp add: cold_layer_def eval_simps)
  have k4: "gather (weight cold_layer)
              (map (\<lambda>f. f div num_class cold_layer) [0, 1])
              (map (\<lambda>f. f mod D cold_layer) [0, 1]) = Inr [5, - 2]"
    by (simp add: cold_layer_def eval_simps)
  have k5: "0 = (if fsum exact_arith [0, 0] = 0 then 0
                 else fdiv exact_arith (fsum exact_arith (map2 (fmul exact_arith) [5, - 2] [0, 0]))
                        (fsum exact_arith [0, 0]))"
    by (simp add: exact_arith_def)
  have k6: "0 = [0, 1] ! argmax [0, 0] div num_class cold_layer"
    and k7: "0 = [0, 1] ! argmax [0, 0] mod D cold_layer"
    by (simp_all add: cold_layer_def argmax_def)
  have wfc: "nrows (weight cold_layer) = nrows (weight cold_layer) \<and>
            ncols (weight cold_layer) = ncols (weight cold_layer) \<and>
            wf_tensor (weight cold_layer)"
    by (simp add: cold_layer_def eval_simps)
  from C3_weighted_mean [OF h1 k2 k3 k4 k5 k6 k7] wfc
  have w3: "\<exists>nw rep. process_bucket exact_arith cold_layer (weight cold_layer) [0, 1] =
        Inr (nw, rep) \<and> get2 nw 0 0 = Inr 0"
    by blast
  from w1 w2 w3 show ?thesis by blast
qed

subsection \<open>The representative index\<close>

text \<open>
  C4. The claim: the index returned for a bucket of two or more members is the flat index
  of the member with the greatest activation count, the first such member on ties. On the
  layer of three inputs and four outputs, the bucket of members 1 and 3 has the counts 0
  and 1 read for them, so member 3 is the most activated; the index returned is 0, which
  is no member of the bucket, in whatever float arithmetic. (Where \<open>num_class\<close> and \<open>D\<close>
  agree the index returned is the first most activated member:
  \<open>representative_round_trip\<close>.)
\<close>

theorem C4_representative_not_a_member:
  "select_representatives A wide_layer [[1, 3]] =
     Inr (wide_layer\<lparr>weight :=
            \<lparr>ncols = 3, rws = [[representative_weight A [2, 1] [0, 1], 2, 3], [4, 5, 6],
                                [7, 8, 9], [10, 11, 12]]\<rparr>,
          lsh_set := True\<rparr>, [0]) \<and>
   representative_weight exact_arith [2, 1] [0, 1] = 1 \<and>
   gather (running_activations wide_layer) [1 div num_class wide_layer, 3 div num_class wide_layer]
     [1 mod D wide_layer, 3 mod D wide_layer] = Inr [0, 1] \<and>
   argmax [0, 1] = 1"
  by (simp add: wide_layer_def eval_simps) (simp add: exact_simps)

text \<open>
  C5. The claim: a flat index is split into row and column and recombined with one
  divisor. The source divides by \<open>num_class\<close>, takes the remainder by \<open>D\<close> and recombines
  with \<open>num_class\<close>: on the layer of three inputs and four outputs, index 3 is split into
  row 0 and column 0, which recombine to 0.
\<close>

theorem C5_two_divisors_no_round_trip:
  "3 div num_class wide_layer = 0 \<and> 3 mod D wide_layer = 0 \<and>
   (3 div num_class wide_layer) * num_class wide_layer + 3 mod D wide_layer \<noteq> 3 \<and>
   num_class wide_layer \<noteq> D wide_layer \<and>
   select_representatives A wide_layer [[3, 1]] =
     Inr (wide_layer\<lparr>weight :=
            \<lparr>ncols = 3, rws = [[representative_weight A [1, 2] [1, 0], 2, 3], [4, 5, 6],
                                [7, 8, 9], [10, 11, 12]]\<rparr>,
          lsh_set := True\<rparr>, [0]) \<and>
   representative_weight exact_arith [1, 2] [1, 0] = 1"
  by (simp add: wide_layer_def eval_simps) (simp add: exact_simps)

subsection \<open>What the selection writes and returns\<close>

text \<open>
  C6. select_representatives changes nothing but weight values: the shape of the weight
  matrix, the bias and the counters stay; a cell whose value differs afterwards is the
  representative cell of some bucket of two or more members; with only empty and singleton
  buckets the weights are unchanged.
\<close>

theorem C6_select_frame:
  assumes "select_representatives A s bucket_indices = Inr (s', reps)"
  shows "nrows (weight s') = nrows (weight s) \<and> ncols (weight s') = ncols (weight s) \<and>
         bias s' = bias s \<and> running_activations s' = running_activations s \<and>
         (\<forall>r c. rws (weight s') ! r ! c \<noteq> rws (weight s) ! r ! c \<longrightarrow>
            (\<exists>b \<in> set bucket_indices. 2 \<le> length b \<and> representative_cell s b r c)) \<and>
         (list_all (\<lambda>b. length b \<le> 1) bucket_indices \<longrightarrow> weight s' = weight s)"
proof -
  from assms obtain nw where loop: "select_loop A s (weight s) bucket_indices = Inr (nw, reps)"
    and s': "s' = s\<lparr>weight := nw, lsh_set := True\<rparr>"
    by (auto simp: select_representatives_def split: sum.splits prod.splits)
  have w: "weight s' = nw" "bias s' = bias s" "running_activations s' = running_activations s"
    by (simp_all add: s')
  show ?thesis
    using select_loop_frame [OF loop] select_loop_small_id [OF loop] unfolding w
    by blast
qed

theorem C6_select_frame_witness:
  "select_representatives exact_arith example_layer [[0, 1], [], [2]] =
     Inr (example_layer\<lparr>weight := \<lparr>ncols = 2, rws = [[1, 5 / 2], [7, 4]]\<rparr>, lsh_set := True\<rparr>,
          [1, - 1, 2]) \<and>
   nrows \<lparr>ncols = 2, rws = [[1, 5 / 2], [7, 4]]\<rparr> = nrows (weight example_layer) \<and>
   rws \<lparr>ncols = 2, rws = [[1, 5 / 2], [7, 4]]\<rparr> ! 0 ! 1 \<noteq> rws (weight example_layer) ! 0 ! 1 \<and>
   representative_cell example_layer [0, 1] 0 1 \<and>
   select_representatives exact_arith example_layer [[], [2]] =
     Inr (example_layer\<lparr>weight := \<lparr>ncols = 2, rws = [[1, 3], [7, 4]]\<rparr>, lsh_set := True\<rparr>,
          [- 1, 2]) \<and>
   list_all (\<lambda>b. length b \<le> 1) [[], [2 :: nat]] \<and>
   \<lparr>ncols = 2, rws = [[1, 3], [7, 4]]\<rparr> = weight example_layer"
  using C6_select_frame [OF example_select]
    C6_select_frame [OF example_select_small [of exact_arith]]
    example_select example_select_small [of exact_arith]
  by (simp add: example_layer_def eval_simps)

text \<open>
  C7. The sequence returned by select_representatives has one entry per bucket, in bucket
  order: - 1 at the position of an empty bucket, the sole member at the position of a
  singleton bucket.
\<close>

theorem C7_representatives_positional:
  assumes "select_representatives A s bucket_indices = Inr (s', reps)"
  shows "length reps = length bucket_indices \<and>
         (\<forall>i < length bucket_indices.
            (bucket_indices ! i = [] \<longrightarrow> reps ! i = - 1) \<and>
            (\<forall>f. bucket_indices ! i = [f] \<longrightarrow> reps ! i = int f))"
proof -
  from assms obtain nw where loop: "select_loop A s (weight s) bucket_indices = Inr (nw, reps)"
    by (auto simp: select_representatives_def split: sum.splits prod.splits)
  have len: "length reps = length bucket_indices"
    using loop by (rule select_loop_length)
  have pos: "(bucket_indices ! i = [] \<longrightarrow> reps ! i = - 1) \<and>
             (\<forall>f. bucket_indices ! i = [f] \<longrightarrow> reps ! i = int f)"
    if "i < length bucket_indices" for i
  proof -
    from select_loop_nth [OF loop that] obtain a a'
      where pb: "process_bucket A s a (bucket_indices ! i) = Inr (a', reps ! i)" by blast
    show ?thesis
      using pb process_bucket_empty_rep process_bucket_single_rep by metis
  qed
  from len pos show ?thesis by blast
qed

theorem C7_representatives_positional_witness:
  "select_representatives exact_arith example_layer [[0, 1], [], [2]] =
     Inr (example_layer\<lparr>weight := \<lparr>ncols = 2, rws = [[1, 5 / 2], [7, 4]]\<rparr>, lsh_set := True\<rparr>,
          [1, - 1, 2]) \<and>
   length [1, - 1, 2 :: int] = length [[0, 1], [], [2 :: nat]] \<and>
   [[0, 1], [], [2 :: nat]] ! 1 = [] \<and> [1, - 1, 2 :: int] ! 1 = - 1 \<and>
   [[0, 1], [], [2 :: nat]] ! 2 = [2] \<and> [1, - 1, 2 :: int] ! 2 = int 2"
  using C7_representatives_positional [OF example_select] example_select by simp

subsection \<open>Pruning\<close>

text \<open>
  C1. The claim: prune_weights drops the sentinel entries, so that the new layer has as many
  rows as there are entries other than - 1. The source indexes with the sequence as it is:
  for the sequence 0, - 1 (one entry other than - 1) the slices have two rows, the second
  being the last row of the matrix and the last bias, and the new layer has two rows.
\<close>

theorem C1_sentinel_kept_in_slice:
  "pruned_weights (weight example_layer) [0, - 1] 2 = Inr \<lparr>ncols = 2, rws = [[1, 3], [7, 4]]\<rparr> \<and>
   pruned_biases (bias example_layer) [0, - 1] = Inr [5, 6] \<and>
   prune_weights u example_layer [0, - 1] 2 =
     Inr (example_layer\<lparr>weight := \<lparr>ncols = 2, rws = [[u 0 0, u 0 1], [u 1 0, u 1 1]]\<rparr>,
                        bias := [0, 0], num_class := 2, D := 2\<rparr>) \<and>
   length (filter (\<lambda>k. k \<noteq> - 1) [0, - 1 :: int]) = 1"
  by (simp add: example_layer_def prune_simps upt_rec numeral_2_eq_2)

text \<open>
  C2. The claim: the new layer holds the copied rows and biases, not re-initialised. The
  source calls \<^verbatim>\<open>init_weights\<close> on the new layer after the copy: whatever was copied, the
  weights are the samples \<open>u\<close> and the biases are 0. Here the slices are the row 7, 4 and the
  bias 6.
\<close>

theorem C2_copy_overwritten_by_init:
  "pruned_weights (weight example_layer) [1] 2 = Inr \<lparr>ncols = 2, rws = [[7, 4]]\<rparr> \<and>
   pruned_biases (bias example_layer) [1] = Inr [6] \<and>
   prune_weights u example_layer [1] 2 =
     Inr (example_layer\<lparr>weight := \<lparr>ncols = 2, rws = [[u 0 0, u 0 1]]\<rparr>,
                        bias := [0], num_class := 1, D := 2\<rparr>)"
  by (simp add: example_layer_def prune_simps upt_rec numeral_2_eq_2)

text \<open>
  C8. The claim: after pruning the counters are replaced, like the weight matrix, by a
  version of the pruned size. The source never assigns \<^verbatim>\<open>self.running_activations\<close>:
  pruning the layer of four output units to the two rows 0 and 1 leaves the counters with
  their three rows of four columns, and the next call of accumulate_metrics, on a batch of
  the two units that are left, raises.
\<close>

theorem C8_counters_stale_after_prune:
  "prune_weights u wide_layer [0, 1] 3 =
     Inr (wide_layer\<lparr>weight := \<lparr>ncols = 3, rws = [[u 0 0, u 0 1, u 0 2], [u 1 0, u 1 1, u 1 2]]\<rparr>,
                     bias := [0, 0], num_class := 2, D := 3\<rparr>) \<and>
   running_activations
     (wide_layer\<lparr>weight := \<lparr>ncols = 3, rws = [[u 0 0, u 0 1, u 0 2], [u 1 0, u 1 1, u 1 2]]\<rparr>,
                 bias := [0, 0], num_class := 2, D := 3\<rparr>) =
     \<lparr>ncols = 4, rws = [[1, 0, 0, 1], [1, 0, 0, 1], [1, 0, 0, 1]]\<rparr> \<and>
   nrows (weight wide_layer) = 4 \<and>
   accumulate_metrics A
     (wide_layer\<lparr>weight := \<lparr>ncols = 3, rws = [[u 0 0, u 0 1, u 0 2], [u 1 0, u 1 1, u 1 2]]\<rparr>,
                 bias := [0, 0], num_class := 2, D := 3\<rparr>) narrow_batch = Inl RuntimeError"
  by (simp add: wide_layer_def prune_simps upt_rec numeral_2_eq_2 numeral_3_eq_3
      accumulate_metrics_def narrow_batch_def Let_def)

text \<open>
  C9, as the code has it. On a layer with at least one row, a sequence with every entry in
  range, and an \<open>input_dim\<close> the copy accepts, prune_weights does not fail and drops no
  entry: the new layer has one row per entry and \<open>input_dim\<close> columns, and at every position
  holding - 1 the slices of lines 127 and 128 have the last row of the weight matrix (cut to
  \<open>input_dim\<close> columns) and the last bias.
\<close>

theorem C9_sentinel_selects_last_row:
  assumes rows: "0 < nrows (weight s)" and bl: "length (bias s) = nrows (weight s)"
    and rng: "list_all (\<lambda>k. - int (nrows (weight s)) \<le> k \<and> k < int (nrows (weight s)))
                representatives"
    and cols: "input_dim \<le> ncols (weight s) \<or> ncols (weight s) = 1"
  shows "\<exists>pw pb s'.
           pruned_weights (weight s) representatives input_dim = Inr pw \<and>
           pruned_biases (bias s) representatives = Inr pb \<and>
           prune_weights u s representatives input_dim = Inr s' \<and>
           nrows pw = length representatives \<and> length pb = length representatives \<and>
           nrows (weight s') = length representatives \<and>
           ncols (weight s') = input_dim \<and>
           length (bias s') = length representatives \<and>
           num_class s' = length representatives \<and> D s' = input_dim \<and>
           running_activations s' = running_activations s \<and>
           (\<forall>i < length representatives. representatives ! i = - 1 \<longrightarrow>
              rws pw ! i = take input_dim (last (rws (weight s))) \<and> pb ! i = last (bias s))"
proof -
  let ?n = "nrows (weight s)"
  have "\<exists>i. py_index ?n k = Inr i" if "k \<in> set representatives" for k
    using rng that py_index_total [of ?n k] by (auto simp: list_all_iff)
  from map_e_total [of representatives "py_index ?n", OF this] obtain idx
    where idx: "map_e (py_index ?n) representatives = Inr idx" by blast
  let ?pw = "\<lparr>ncols = min input_dim (ncols (weight s)),
              rws = map (\<lambda>i. take input_dim (rws (weight s) ! i)) idx\<rparr>"
  let ?pb = "map (\<lambda>i. bias s ! i) idx"
  have pw: "pruned_weights (weight s) representatives input_dim = Inr ?pw"
    by (simp add: pruned_weights_def idx)
  have pb: "pruned_biases (bias s) representatives = Inr ?pb"
    by (simp add: pruned_biases_def bl idx)
  have len: "length idx = length representatives" using map_e_length [OF idx] .
  have width: "min input_dim (ncols (weight s)) = input_dim \<or> min input_dim (ncols (weight s)) = 1"
    using cols by (auto simp: min_def)
  have "\<exists>cw. copy_weight input_dim t = Inr cw" if "ncols t = input_dim \<or> ncols t = 1" for t
    using that by (auto simp: copy_weight_def)
  from this [of ?pw] width obtain cw where cw: "copy_weight input_dim ?pw = Inr cw"
    by auto
  obtain s' where s': "prune_weights u s representatives input_dim = Inr s'"
    by (simp add: prune_weights_def pw pb cw init_weights_def)
  have sent: "rws ?pw ! i = take input_dim (last (rws (weight s))) \<and> ?pb ! i = last (bias s)"
    if "i < length representatives" "representatives ! i = - 1" for i
  proof -
    from map_e_nth [OF idx that(1)] that(2) py_index_sentinel [OF rows]
    have "idx ! i = ?n - 1" by simp
    moreover have "rws (weight s) \<noteq> []" "bias s \<noteq> []"
      using rows bl by (auto simp: nrows_def)
    ultimately show ?thesis
      using that(1) len bl by (simp add: last_conv_nth nrows_def)
  qed
  from pw pb s' len sent prune_weights_shape(1-6) [OF s'] show ?thesis
    by (auto simp: nrows_def)
qed

theorem C9_sentinel_selects_last_row_witness:
  "pruned_weights (weight example_layer) [1, - 1] 1 = Inr \<lparr>ncols = 1, rws = [[7], [7]]\<rparr> \<and>
   pruned_biases (bias example_layer) [1, - 1] = Inr [6, 6] \<and>
   prune_weights zero_samples example_layer [1, - 1] 1 =
     Inr (example_layer\<lparr>weight := \<lparr>ncols = 1, rws = [[0], [0]]\<rparr>, bias := [0, 0],
                        num_class := 2, D := 1\<rparr>) \<and>
   [1, - 1 :: int] ! 1 = - 1 \<and>
   take 1 (last (rws (weight example_layer))) = [7] \<and> last (bias example_layer) = 6"
proof -
  have h1: "0 < nrows (weight example_layer)"
    and h2: "length (bias example_layer) = nrows (weight example_layer)"
    and h3: "list_all (\<lambda>k. - int (nrows (weight example_layer)) \<le> k \<and>
                           k < int (nrows (weight example_layer))) [1, - 1]"
    and h4: "1 \<le> ncols (weight example_layer) \<or> ncols (weight example_layer) = 1"
    by (simp_all add: example_layer_def nrows_def)
  from C9_sentinel_selects_last_row [OF h1 h2 h3 h4, of zero_samples] example_prune
  show ?thesis
    by (simp add: example_layer_def prune_simps)
qed

text \<open>
  C9 as stated fails twice. The layer installed for the sequence 1, - 1 has the bias 0 at
  the position of the sentinel, not the last bias 6: the call of \<^verbatim>\<open>init_weights\<close> has
  overwritten what was copied. And with the sequence 0, - 1 and an \<open>input_dim\<close> of 3 on the
  layer of two columns, prune_weights raises, at the copy into the new layer.
\<close>

theorem C9_sentinel_counterexample:
  "[1, - 1 :: int] ! 1 = - 1 \<and>
   prune_weights zero_samples example_layer [1, - 1] 1 =
     Inr (example_layer\<lparr>weight := \<lparr>ncols = 1, rws = [[0], [0]]\<rparr>, bias := [0, 0],
                        num_class := 2, D := 1\<rparr>) \<and>
   last (bias example_layer) = 6 \<and>
   bias (example_layer\<lparr>weight := \<lparr>ncols = 1, rws = [[0], [0]]\<rparr>, bias := [0, 0],
                        num_class := 2, D := 1\<rparr>) ! 1 = 0 \<and>
   [0, - 1 :: int] ! 1 = - 1 \<and>
   prune_weights zero_samples example_layer [0, - 1] 3 = Inl RuntimeError"
  by (simp add: example_layer_def prune_simps zero_samples_def upt_rec numeral_2_eq_2)

subsection \<open>The counters\<close>

text \<open>
  C10. Take any float arithmetic in which adding a value that is not negative never lowers
  a value, and in which the sum of values that are not negative is not negative. In every
  state reached from \<^verbatim>\<open>__init__\<close> by calls of accumulate_metrics, the counters keep the shape
  \<open>(input_dim, output_dim)\<close>, the entries of a column are all equal, and no entry is
  negative; a further call lowers no entry and, for a batch as wide as the counters, adds
  to every entry of column \<open>j\<close>, with the float addition, the float sum of the mask of the
  samples whose activation \<open>j\<close> is positive (without rounding, the number of these samples:
  \<open>activation_mask_count\<close>).
\<close>

theorem C10_counters_invariant:
  assumes mono: "\<And>x y. 0 \<le> y \<Longrightarrow> x \<le> fadd A x y"
    and sum_nn: "\<And>xs. list_all (\<lambda>x. 0 \<le> x) xs \<Longrightarrow> 0 \<le> fsum A xs"
    and reach: "accumulate_all A (HashedFC_init u input_dim output_dim k) batches = Inr s"
  shows "nrows (running_activations s) = input_dim \<and> ncols (running_activations s) = output_dim \<and>
    (\<forall>i < input_dim. \<forall>i' < input_dim. \<forall>j < output_dim.
        rws (running_activations s) ! i ! j = rws (running_activations s) ! i' ! j) \<and>
    (\<forall>i < input_dim. \<forall>j < output_dim. 0 \<le> rws (running_activations s) ! i ! j) \<and>
    (\<forall>a s'. accumulate_metrics A s a = Inr s' \<longrightarrow>
       (\<forall>i < input_dim. \<forall>j < output_dim.
          rws (running_activations s) ! i ! j \<le> rws (running_activations s') ! i ! j \<and>
          (ncols a = output_dim \<longrightarrow>
             rws (running_activations s') ! i ! j =
               fadd A (rws (running_activations s) ! i ! j)
                 (fsum A (activation_mask a j)))))"
proof -
  let ?s0 = "HashedFC_init u input_dim output_dim k"
  let ?ra = "running_activations s"
  have ra0: "running_activations ?s0 = zeros input_dim output_dim"
    by (simp add: HashedFC_init_def init_weights_def)
  from accumulate_all_inv [OF mono sum_nn reach] counter_inv_zeros
  have inv: "counter_inv ?ra" and nr: "nrows ?ra = input_dim" and nc: "ncols ?ra = output_dim"
    by (simp_all add: ra0 zeros_def nrows_def)
  have eq: "rws ?ra ! i ! j = rws ?ra ! i' ! j" if "i < input_dim" "i' < input_dim" for i i' j
  proof -
    have "rws ?ra ! i \<in> set (rws ?ra)" "rws ?ra ! i' \<in> set (rws ?ra)"
      using that nr by (simp_all add: nrows_def)
    then have "rws ?ra ! i = rws ?ra ! i'"
      using inv by (simp add: counter_inv_def rows_equal_def list_all_iff)
    then show ?thesis by simp
  qed
  have nn: "0 \<le> rws ?ra ! i ! j" if "i < input_dim" "j < output_dim" for i j
  proof -
    have "rws ?ra ! i \<in> set (rws ?ra)" using that nr by (simp add: nrows_def)
    moreover from this have "length (rws ?ra ! i) = output_dim"
      using inv nc by (auto simp: counter_inv_def wf_tensor_def list_all_iff)
    ultimately show ?thesis
      using inv that by (auto simp: counter_inv_def nonneg_def list_all_iff)
  qed
  have step: "rws ?ra ! i ! j \<le> rws (running_activations s') ! i ! j \<and>
          (ncols a = output_dim \<longrightarrow>
             rws (running_activations s') ! i ! j =
               fadd A (rws ?ra ! i ! j) (fsum A (activation_mask a j)))"
    if acc: "accumulate_metrics A s a = Inr s'" and ij: "i < input_dim" "j < output_dim" for a s' i j
  proof -
    let ?idx = "if ncols a = ncols ?ra then j else 0"
    have wf: "wf_tensor ?ra" using inv by (simp add: counter_inv_def)
    have cell: "rws (running_activations s') ! i ! j =
           fadd A (rws ?ra ! i ! j) (activation_summed A a ! ?idx)"
      using accumulate_cell [OF acc wf] ij nr nc by simp
    have w: "ncols a = output_dim \<or> ncols a = 1"
      using acc nc by (auto simp: accumulate_metrics_def Let_def split: if_splits)
    then have idx: "?idx < ncols a" using ij nc by auto
    have summed: "activation_summed A a ! ?idx = fsum A (activation_mask a ?idx)"
      using activation_summed_nth [OF idx] .
    have "0 \<le> fsum A (activation_mask a ?idx)"
      using sum_nn [OF activation_mask_nonneg] .
    from mono [OF this, of "rws ?ra ! i ! j"] cell summed show ?thesis
      using nc by (auto split: if_splits)
  qed
  from nr nc eq nn step show ?thesis by blast
qed

text \<open>
  Two arithmetics with the two properties: the one without rounding, where two batches of
  counts 2, 1, 0 add up to 4, 2, 0; and the one whose sums stop at 3, where the first
  counter stays at 3.
\<close>

theorem C10_counters_invariant_witness:
  "accumulate_all exact_arith (HashedFC_init zero_samples 2 3 1) [example_batch] =
     Inr ((HashedFC_init zero_samples 2 3 1)
            \<lparr>running_activations := \<lparr>ncols = 3, rws = [[2, 1, 0], [2, 1, 0]]\<rparr>\<rparr>) \<and>
   [[2, 1, 0], [2, 1, 0 :: real]] ! 0 ! 1 = [[2, 1, 0], [2, 1, 0 :: real]] ! 1 ! 1 \<and>
   (0 :: real) \<le> [[2, 1, 0], [2, 1, 0 :: real]] ! 1 ! 2 \<and>
   accumulate_metrics exact_arith ((HashedFC_init zero_samples 2 3 1)
            \<lparr>running_activations := \<lparr>ncols = 3, rws = [[2, 1, 0], [2, 1, 0]]\<rparr>\<rparr>) example_batch =
     Inr ((HashedFC_init zero_samples 2 3 1)
            \<lparr>running_activations := \<lparr>ncols = 3, rws = [[4, 2, 0], [4, 2, 0]]\<rparr>\<rparr>) \<and>
   [[2, 1, 0], [2, 1, 0 :: real]] ! 1 ! 0 \<le> [[4, 2, 0], [4, 2, 0 :: real]] ! 1 ! 0 \<and>
   accumulate_all (stuck_arith 3) (HashedFC_init zero_samples 2 3 1)
       [example_batch, example_batch] =
     Inr ((HashedFC_init zero_samples 2 3 1)
            \<lparr>running_activations := \<lparr>ncols = 3, rws = [[3, 2, 0], [3, 2, 0]]\<rparr>\<rparr>) \<and>
   [[3, 2, 0], [3, 2, 0 :: real]] ! 0 ! 0 = [[3, 2, 0], [3, 2, 0 :: real]] ! 1 ! 0"
proof -
  have e1: "0 \<le> y \<Longrightarrow> x \<le> fadd exact_arith x y" for x y
    by (simp add: exact_arith_def)
  have e2: "list_all (\<lambda>x. 0 \<le> x) xs \<Longrightarrow> 0 \<le> fsum exact_arith xs" for xs
    by (simp add: exact_arith_def list_all_iff sum_list_nonneg)
  have t1: "0 \<le> y \<Longrightarrow> x \<le> fadd (stuck_arith 3) x y" for x y
    by (simp add: stuck_arith_def)
  have t2: "list_all (\<lambda>x. 0 \<le> x) xs \<Longrightarrow> 0 \<le> fsum (stuck_arith 3) xs" for xs
    by (simp add: stuck_arith_def list_all_iff sum_list_nonneg)
  show ?thesis
    using C10_counters_invariant [OF e1 e2 example_accumulate]
      C10_counters_invariant [OF t1 t2 example_accumulate_stuck]
      example_accumulate example_accumulate_stuck
    by (simp add: accumulate_simps exact_arith_def)
qed

end
